theory Spec2Isabelle
  imports Complex_Main
begin

section \<open>Numbers\<close>

text \<open>
  \<^verbatim>\<open>Manipulator.cpp\<close> computes with C++ \<^verbatim>\<open>double\<close>. Nothing below assumes a law of
  arithmetic: the type of numbers is a type variable and the operations the source applies
  to it are the fields of a record that every function takes as its first argument.
  \<^item> \<open>d0\<close> is the literal \<^verbatim>\<open>0.0\<close>, \<open>d01\<close> the literal \<^verbatim>\<open>0.1\<close>, \<open>dhalf_pi\<close> the expression
    \<^verbatim>\<open>M_PI/2\<close>;
  \<^item> \<open>dadd\<close>, \<open>dsub\<close>, \<open>dmul\<close> are \<^verbatim>\<open>+\<close>, \<^verbatim>\<open>-\<close>, \<^verbatim>\<open>*\<close>; \<open>dcos\<close>, \<open>dsin\<close>, \<open>dsqrt\<close> the
    functions of \<^verbatim>\<open><cmath>\<close>; \<open>dsq x\<close> is \<^verbatim>\<open>pow(x, 2)\<close>;
  \<^item> \<open>dless a b\<close> is \<^verbatim>\<open>a < b\<close>; the source's \<^verbatim>\<open>a > b\<close> is written \<open>dless b a\<close>.
\<close>

record 'a double_ops =
  d0 :: 'a
  d01 :: 'a
  dhalf_pi :: 'a
  dadd :: "'a \<Rightarrow> 'a \<Rightarrow> 'a"
  dsub :: "'a \<Rightarrow> 'a \<Rightarrow> 'a"
  dmul :: "'a \<Rightarrow> 'a \<Rightarrow> 'a"
  dcos :: "'a \<Rightarrow> 'a"
  dsin :: "'a \<Rightarrow> 'a"
  dsqrt :: "'a \<Rightarrow> 'a"
  dsq :: "'a \<Rightarrow> 'a"
  dless :: "'a \<Rightarrow> 'a \<Rightarrow> bool"

text \<open>
  The real numbers with the exact operations are one instance; \<^verbatim>\<open>M_PI\<close> is the decimal
  literal of the source's \<^verbatim>\<open>#define\<close>. The concrete evaluations below are made in it, on
  inputs where the double operations are exact as well (lengths 0 and 1, angles 0).
\<close>

definition real_ops :: "real double_ops" where
  "real_ops = \<lparr> d0 = 0, d01 = 1 / 10, dhalf_pi = 3.14159265358979323846 / 2,
      dadd = (+), dsub = (-), dmul = (*), dcos = cos, dsin = sin, dsqrt = sqrt,
      dsq = (\<lambda>x. x ^ 2), dless = (<) \<rparr>"

text \<open>
  A second instance has the special values of IEEE 754: a number is finite, an infinity or
  NaN. A finite result beyond the largest double, \<^verbatim>\<open>2^1024 - 2^971\<close>, overflows to an infinity;
  \<open>\<infinity> - \<infinity>\<close> and \<open>0 \<cdot> \<infinity>\<close> are NaN; every comparison with NaN is false. The rounding of
  finite results and the sign of zero are left out.
\<close>

datatype xdouble = Finite real | PosInf | NegInf | NaN

definition max_double :: real where
  "max_double = 2 ^ 1024 - 2 ^ 971"

definition overflow :: "real \<Rightarrow> xdouble" where
  "overflow x = (if max_double < x then PosInf else if x < - max_double then NegInf else Finite x)"

fun xadd :: "xdouble \<Rightarrow> xdouble \<Rightarrow> xdouble" where
  "xadd (Finite a) (Finite b) = overflow (a + b)"
| "xadd NaN _ = NaN"
| "xadd _ NaN = NaN"
| "xadd PosInf NegInf = NaN"
| "xadd NegInf PosInf = NaN"
| "xadd PosInf _ = PosInf"
| "xadd _ PosInf = PosInf"
| "xadd NegInf _ = NegInf"
| "xadd _ NegInf = NegInf"

fun xneg :: "xdouble \<Rightarrow> xdouble" where
  "xneg (Finite a) = Finite (- a)"
| "xneg PosInf = NegInf"
| "xneg NegInf = PosInf"
| "xneg NaN = NaN"

definition xsub :: "xdouble \<Rightarrow> xdouble \<Rightarrow> xdouble" where
  "xsub a b = xadd a (xneg b)"

fun xmul :: "xdouble \<Rightarrow> xdouble \<Rightarrow> xdouble" where
  "xmul (Finite a) (Finite b) = overflow (a * b)"
| "xmul NaN _ = NaN"
| "xmul _ NaN = NaN"
| "xmul PosInf (Finite b) = (if b = 0 then NaN else if 0 < b then PosInf else NegInf)"
| "xmul NegInf (Finite b) = (if b = 0 then NaN else if 0 < b then NegInf else PosInf)"
| "xmul (Finite a) PosInf = (if a = 0 then NaN else if 0 < a then PosInf else NegInf)"
| "xmul (Finite a) NegInf = (if a = 0 then NaN else if 0 < a then NegInf else PosInf)"
| "xmul PosInf PosInf = PosInf"
| "xmul NegInf NegInf = PosInf"
| "xmul PosInf NegInf = NegInf"
| "xmul NegInf PosInf = NegInf"

fun xcos :: "xdouble \<Rightarrow> xdouble" where
  "xcos (Finite a) = Finite (cos a)"
| "xcos _ = NaN"

fun xsin :: "xdouble \<Rightarrow> xdouble" where
  "xsin (Finite a) = Finite (sin a)"
| "xsin _ = NaN"

fun xsqrt :: "xdouble \<Rightarrow> xdouble" where
  "xsqrt (Finite a) = (if a < 0 then NaN else Finite (sqrt a))"
| "xsqrt PosInf = PosInf"
| "xsqrt NegInf = NaN"
| "xsqrt NaN = NaN"

fun xsq :: "xdouble \<Rightarrow> xdouble" where
  "xsq (Finite a) = overflow (a ^ 2)"
| "xsq PosInf = PosInf"
| "xsq NegInf = PosInf"
| "xsq NaN = NaN"

fun xless :: "xdouble \<Rightarrow> xdouble \<Rightarrow> bool" where
  "xless (Finite a) (Finite b) = (a < b)"
| "xless NaN _ = False"
| "xless _ NaN = False"
| "xless _ NegInf = False"
| "xless NegInf _ = True"
| "xless PosInf _ = False"
| "xless _ PosInf = True"

definition ieee_ops :: "xdouble double_ops" where
  "ieee_ops = \<lparr> d0 = Finite 0, d01 = Finite (1 / 10),
      dhalf_pi = Finite (3.14159265358979323846 / 2),
      dadd = xadd, dsub = xsub, dmul = xmul, dcos = xcos, dsin = xsin, dsqrt = xsqrt,
      dsq = xsq, dless = xless \<rparr>"

type_synonym 'a vec3 = "'a \<times> 'a \<times> 'a"

section \<open>Links and the registry\<close>

datatype link_class = PlainLink | Gripper | Camera

text \<open>
  Modelled from the spec: the class \<^verbatim>\<open>MovableLink\<close> and its subclasses \<^verbatim>\<open>Gripper\<close> and
  \<^verbatim>\<open>Camera\<close> are declared in headers that are not part of the source at hand. A link has
  an id, the id of its predecessor, a length and an orientation (pitch, yaw, roll);
  \<open>dyn_type\<close> is its dynamic class, which \<^verbatim>\<open>dynamic_cast\<close> inspects. The state that a
  subclass adds lives in the extension part of the record.
  \<^verbatim>\<open>getDirection()\<close> returns the pair whose \<^verbatim>\<open>first\<close> the source reads as pitch and whose
  \<^verbatim>\<open>second\<close> as yaw.
\<close>

record 'a MovableLink =
  getId :: int
  getPrevId :: int
  getR :: 'a
  dir_pitch :: 'a
  dir_yaw :: 'a
  dir_roll :: 'a
  dyn_type :: link_class

definition getDirection :: "('a, 'z) MovableLink_scheme \<Rightarrow> 'a \<times> 'a" where
  "getDirection link = (dir_pitch link, dir_yaw link)"

text \<open>A \<^verbatim>\<open>MovableLink*\<close>: null, or the link it points to.\<close>

datatype ('a, 'z) pointer = nullptr | Ptr "('a, 'z) MovableLink_scheme"

text \<open>\<^verbatim>\<open>std::map<int, MovableLink*> links_\<close>, the only state of a \<^verbatim>\<open>Manipulator\<close>.\<close>

type_synonym ('a, 'z) registry = "int \<rightharpoonup> ('a, 'z) pointer"

text \<open>
  What ends a call without a return value: a failed \<^verbatim>\<open>assert\<close>, the dereference of a null
  pointer, \<^verbatim>\<open>std::out_of_range\<close> thrown by \<^verbatim>\<open>map::at\<close>, a vector index out of bounds.
\<close>

datatype failure = AssertionFailed | NullDereference | OutOfRange | IndexOutOfBounds

text \<open>The lines written to \<^verbatim>\<open>std::cerr\<close>, one constructor per message.\<close>

datatype 'a report =
    AlreadyExists int
  | NotAGripper int
  | NotACamera int
  | IncompleteChain int
  | DomainViolation 'a 'a
  | CollisionDetected int 'a 'a 'a

text \<open>\<^verbatim>\<open>links_.at(k)-> ...\<close>: the link behind key \<open>k\<close>.\<close>

definition link_at :: "('a, 'z) registry \<Rightarrow> int \<Rightarrow> failure + ('a, 'z) MovableLink_scheme" where
  "link_at links k =
     (case links k of
        None \<Rightarrow> Inl OutOfRange
      | Some nullptr \<Rightarrow> Inl NullDereference
      | Some (Ptr link) \<Rightarrow> Inr link)"

text \<open>\<^verbatim>\<open>links_[id]\<close>: subscripting inserts a value-initialised (null) pointer for an absent key.\<close>

definition subscript :: "('a, 'z) registry \<Rightarrow> int \<Rightarrow> ('a, 'z) registry \<times> ('a, 'z) pointer" where
  "subscript links k =
     (case links k of
        None \<Rightarrow> (links(k \<mapsto> nullptr), nullptr)
      | Some p \<Rightarrow> (links, p))"

text \<open>\<^verbatim>\<open>dynamic_cast<C*>(p)\<close>: the link when \<open>p\<close> is not null and its dynamic class is \<open>C\<close>.\<close>

definition dynamic_cast :: "link_class \<Rightarrow> ('a, 'z) pointer \<Rightarrow> ('a, 'z) MovableLink_scheme option" where
  "dynamic_cast c p =
     (case p of
        nullptr \<Rightarrow> None
      | Ptr link \<Rightarrow> if dyn_type link = c then Some link else None)"

section \<open>Registry operations\<close>

definition addLink ::
  "('a, 'z) registry \<Rightarrow> ('a, 'z) MovableLink_scheme \<Rightarrow> 'a report list \<times> ('a, 'z) registry" where
  "addLink links link =
     (let id' = getId link in
      if links id' \<noteq> None then ([AlreadyExists id'], links)
      else ([], links(id' \<mapsto> Ptr link)))"

text \<open>
  The bodies of \<^verbatim>\<open>Gripper::open\<close>, \<^verbatim>\<open>Gripper::close\<close> and \<^verbatim>\<open>Camera::take_a_photo\<close> are not
  in the source at hand; each operation takes the method's effect on the link as its first
  argument.
\<close>

definition openGripper ::
  "('a \<Rightarrow> ('a, 'z) MovableLink_scheme \<Rightarrow> ('a, 'z) MovableLink_scheme) \<Rightarrow>
   ('a, 'z) registry \<Rightarrow> int \<Rightarrow> 'a \<Rightarrow> 'a report list \<times> ('a, 'z) registry" where
  "openGripper open_m links id' angle =
     (case subscript links id' of (links', p) \<Rightarrow>
        (case dynamic_cast Gripper p of
           Some g \<Rightarrow> ([], links'(id' \<mapsto> Ptr (open_m angle g)))
         | None \<Rightarrow> ([NotAGripper id'], links')))"

definition closeGripper ::
  "(('a, 'z) MovableLink_scheme \<Rightarrow> ('a, 'z) MovableLink_scheme) \<Rightarrow>
   ('a, 'z) registry \<Rightarrow> int \<Rightarrow> 'a report list \<times> ('a, 'z) registry" where
  "closeGripper close_m links id' =
     (case subscript links id' of (links', p) \<Rightarrow>
        (case dynamic_cast Gripper p of
           Some g \<Rightarrow> ([], links'(id' \<mapsto> Ptr (close_m g)))
         | None \<Rightarrow> ([NotAGripper id'], links')))"

definition takePhoto ::
  "(('a, 'z) MovableLink_scheme \<Rightarrow> ('a, 'z) MovableLink_scheme) \<Rightarrow>
   ('a, 'z) registry \<Rightarrow> int \<Rightarrow> 'a report list \<times> ('a, 'z) registry" where
  "takePhoto take_a_photo links id' =
     (case subscript links id' of (links', p) \<Rightarrow>
        (case dynamic_cast Camera p of
           Some c \<Rightarrow> ([], links'(id' \<mapsto> Ptr (take_a_photo c)))
         | None \<Rightarrow> ([NotACamera id'], links')))"

section \<open>Forward kinematics\<close>

definition vadd :: "'a double_ops \<Rightarrow> 'a vec3 \<Rightarrow> 'a vec3 \<Rightarrow> 'a vec3" where
  "vadd A p d =
     (case p of (x, y, z) \<Rightarrow> case d of (dx, dy, dz) \<Rightarrow> (dadd A x dx, dadd A y dy, dadd A z dz))"

text \<open>
  The relative coordinates \<^verbatim>\<open>(dx, dy, dz)\<close> of a link; the source computes them with the
  same three lines in \<^verbatim>\<open>calculatePosition\<close> and in \<^verbatim>\<open>checkCollision\<close>.
\<close>

definition displacement :: "'a double_ops \<Rightarrow> ('a, 'z) MovableLink_scheme \<Rightarrow> 'a vec3" where
  "displacement A link =
     (let r = getR link;
          direction = getDirection link;
          pitch = fst direction;
          yaw = snd direction
      in (dmul A (dmul A r (dcos A yaw)) (dsin A pitch),
          dmul A (dmul A r (dsin A yaw)) (dsin A pitch),
          dmul A r (dcos A pitch)))"

definition distance :: "'a double_ops \<Rightarrow> 'a vec3 \<Rightarrow> 'a vec3 \<Rightarrow> 'a" where
  "distance A c p =
     (case c of (current_x, current_y, current_z) \<Rightarrow> case p of (prev_x, prev_y, prev_z) \<Rightarrow>
        dsqrt A (dadd A (dadd A (dsq A (dsub A current_x prev_x))
                                (dsq A (dsub A current_y prev_y)))
                        (dsq A (dsub A current_z prev_z))))"

text \<open>
  The inner loop of \<^verbatim>\<open>checkCollision\<close>, \<^verbatim>\<open>for (size_t j = 0; j <= i; ++j)\<close>, from \<open>j\<close> on with
  the sum \<open>prev\<close> so far.
\<close>

function prev_position ::
  "'a double_ops \<Rightarrow> ('a, 'z) registry \<Rightarrow> int list \<Rightarrow> nat \<Rightarrow> nat \<Rightarrow> 'a vec3 \<Rightarrow> failure + 'a vec3" where
  "prev_position A links chain i j prev =
     (if j \<le> i then
        (if j < length chain then
           (case link_at links (chain ! j) of
              Inl e \<Rightarrow> Inl e
            | Inr link \<Rightarrow> prev_position A links chain i (j + 1) (vadd A prev (displacement A link)))
         else Inl IndexOutOfBounds)
      else Inr prev)"
  by pat_completeness auto
termination
  by (relation "measure (\<lambda>(A, links, chain, i, j, prev). Suc i - j)") auto

declare prev_position.simps [simp del]

text \<open>
  The outer loop of \<^verbatim>\<open>checkCollision\<close>, \<^verbatim>\<open>for (size_t i = 0; i < current_index; ++i)\<close>, from
  \<open>i\<close> on. \<open>Inr False\<close> is \<^verbatim>\<open>return false\<close> (a collision), \<open>Inr True\<close> is \<^verbatim>\<open>return true\<close>.
\<close>

function checkCollision_from ::
  "'a double_ops \<Rightarrow> ('a, 'z) registry \<Rightarrow> int list \<Rightarrow> nat \<Rightarrow> 'a vec3 \<Rightarrow> nat \<Rightarrow> failure + bool" where
  "checkCollision_from A links chain current_index current i =
     (if i < current_index then
        (case prev_position A links chain i 0 (d0 A, d0 A, d0 A) of
           Inl e \<Rightarrow> Inl e
         | Inr prev \<Rightarrow>
             if dless A (distance A current prev) (d01 A) then Inr False
             else checkCollision_from A links chain current_index current (i + 1))
      else Inr True)"
  by pat_completeness auto
termination
  by (relation "measure (\<lambda>(A, links, chain, current_index, current, i). current_index - i)") auto

declare checkCollision_from.simps [simp del]

definition checkCollision ::
  "'a double_ops \<Rightarrow> ('a, 'z) registry \<Rightarrow> int list \<Rightarrow> nat \<Rightarrow> 'a \<Rightarrow> 'a \<Rightarrow> 'a \<Rightarrow> failure + bool" where
  "checkCollision A links chain current_index x y z =
     checkCollision_from A links chain current_index (x, y, z) 0"

text \<open>
  The \<^verbatim>\<open>while\<close> loop of \<^verbatim>\<open>calculatePosition\<close> that collects the chain from the target back
  to the base. The loop has no bound, so it is a partial function: \<open>None\<close> means that it
  never leaves the loop. It returns the chain and the id at which it stopped.
\<close>

partial_function (option) chain_walk ::
  "('a, 'z) registry \<Rightarrow> int list \<Rightarrow> int \<Rightarrow> (failure + int list \<times> int) option" where
  "chain_walk links chain current_id =
     (if current_id \<noteq> 0 \<and> links current_id \<noteq> None then
        (case link_at links current_id of
           Inl e \<Rightarrow> Some (Inl e)
         | Inr link \<Rightarrow> chain_walk links (chain @ [current_id]) (getPrevId link))
      else Some (Inr (chain, current_id)))"

text \<open>
  The \<^verbatim>\<open>for\<close> loop of \<^verbatim>\<open>calculatePosition\<close> over the root-to-target chain, from index \<open>i\<close> on
  with the coordinates \<open>(x, y, z)\<close> accumulated so far. The result is what was written to
  \<^verbatim>\<open>std::cerr\<close> and the tuple returned.
\<close>

function position_loop ::
  "'a double_ops \<Rightarrow> ('a, 'z) registry \<Rightarrow> int list \<Rightarrow> nat \<Rightarrow> 'a vec3 \<Rightarrow>
   failure + 'a report list \<times> 'a vec3" where
  "position_loop A links chain i xyz =
     (if i < length chain then
        (case link_at links (chain ! i) of
           Inl e \<Rightarrow> Inl e
         | Inr link \<Rightarrow>
             (let direction = getDirection link;
                  pitch = fst direction;
                  yaw = snd direction
              in if chain ! i = 1 \<and> (dless A (dhalf_pi A) pitch \<or> dless A (dhalf_pi A) yaw)
                 then Inr ([DomainViolation pitch yaw], (d0 A, d0 A, d0 A))
                 else
                   (case vadd A xyz (displacement A link) of (x, y, z) \<Rightarrow>
                      if i > 0 then
                        (case checkCollision A links chain i x y z of
                           Inl e \<Rightarrow> Inl e
                         | Inr ok \<Rightarrow>
                             if \<not> ok
                             then Inr ([CollisionDetected (chain ! i) x y z], (d0 A, d0 A, d0 A))
                             else position_loop A links chain (i + 1) (x, y, z))
                      else position_loop A links chain (i + 1) (x, y, z))))
      else Inr ([], xyz))"
  by pat_completeness auto
termination
  by (relation "measure (\<lambda>(A, links, chain, i, xyz). length chain - i)") auto

declare position_loop.simps [simp del]

text \<open>
  \<^verbatim>\<open>calculatePosition(id)\<close>. \<open>ndebug\<close> says whether the file is compiled with \<^verbatim>\<open>NDEBUG\<close>,
  which removes the \<^verbatim>\<open>assert\<close>. The result is \<open>None\<close> when the call never returns,
  \<open>Some (Inl f)\<close> when it ends without a value, and \<open>Some (Inr (reports, position))\<close> when it
  returns \<open>position\<close> after writing \<open>reports\<close>.
\<close>

definition calculatePosition ::
  "'a double_ops \<Rightarrow> bool \<Rightarrow> ('a, 'z) registry \<Rightarrow> int \<Rightarrow>
   (failure + 'a report list \<times> 'a vec3) option" where
  "calculatePosition A ndebug links id' =
     (if \<not> ndebug \<and> links id' = None then Some (Inl AssertionFailed)
      else
        (case chain_walk links [] id' of
           None \<Rightarrow> None
         | Some (Inl e) \<Rightarrow> Some (Inl e)
         | Some (Inr (chain, current_id)) \<Rightarrow>
             if current_id \<noteq> 0
             then Some (Inr ([IncompleteChain id'], (d0 A, d0 A, d0 A)))
             else Some (position_loop A links (rev chain) 0 (d0 A, d0 A, d0 A))))"

section \<open>Notions of the specification\<close>

text \<open>
  \<open>walk_path links id' path stop\<close>: following \<^verbatim>\<open>prevId\<close> from \<open>id'\<close> through registered,
  non-null links visits the keys and links of \<open>path\<close> (target first) and then arrives at
  \<open>stop\<close>, which is the base 0 or a key that is not registered. The chain terminates at the
  base when \<open>stop = 0\<close>; it is broken when \<open>stop \<noteq> 0\<close>.
\<close>

inductive walk_path ::
  "('a, 'z) registry \<Rightarrow> int \<Rightarrow> (int \<times> ('a, 'z) MovableLink_scheme) list \<Rightarrow> int \<Rightarrow> bool" where
  walk_stop: "current_id = 0 \<or> links current_id = None \<Longrightarrow> walk_path links current_id [] current_id"
| walk_step: "current_id \<noteq> 0 \<Longrightarrow> links current_id = Some (Ptr link) \<Longrightarrow>
     walk_path links (getPrevId link) path stop \<Longrightarrow>
     walk_path links current_id ((current_id, link) # path) stop"

text \<open>
  \<open>walk_ends links id'\<close>: following \<^verbatim>\<open>prevId\<close> from \<open>id'\<close> arrives, after finitely many
  links, at the base, at a key that is not registered, or at a key registered with a null
  pointer.
\<close>

inductive walk_ends :: "('a, 'z) registry \<Rightarrow> int \<Rightarrow> bool" where
  ends_here: "current_id = 0 \<or> links current_id = None \<or> links current_id = Some nullptr \<Longrightarrow>
     walk_ends links current_id"
| ends_later: "links current_id = Some (Ptr link) \<Longrightarrow> walk_ends links (getPrevId link) \<Longrightarrow>
     walk_ends links current_id"

code_pred walk_path .

code_pred walk_ends .

text \<open>The keys and the links of a path in root-to-target order.\<close>

definition chain_ids :: "(int \<times> ('a, 'z) MovableLink_scheme) list \<Rightarrow> int list" where
  "chain_ids path = rev (map fst path)"

definition chain_links ::
  "(int \<times> ('a, 'z) MovableLink_scheme) list \<Rightarrow> ('a, 'z) MovableLink_scheme list" where
  "chain_links path = rev (map snd path)"

text \<open>
  The absolute position of the \<open>n\<close>-th link of a root-to-target list of links: the
  displacements of the first \<open>n\<close> links added up from the base position, in chain order.
  The link at chain index \<open>j\<close> has position \<open>prefix_position A ls (Suc j)\<close>.
\<close>

definition prefix_position ::
  "'a double_ops \<Rightarrow> ('a, 'z) MovableLink_scheme list \<Rightarrow> nat \<Rightarrow> 'a vec3" where
  "prefix_position A ls n = foldl (vadd A) (d0 A, d0 A, d0 A) (map (displacement A) (take n ls))"

text \<open>
  The relative displacement of a link as the specification writes it:
  \<open>dx = r\<cdot>cos(yaw)\<cdot>sin(pitch)\<close>, \<open>dy = r\<cdot>sin(yaw)\<cdot>sin(pitch)\<close>, \<open>dz = r\<cdot>cos(pitch)\<close>.
\<close>

definition rel_dx :: "'a double_ops \<Rightarrow> ('a, 'z) MovableLink_scheme \<Rightarrow> 'a" where
  "rel_dx A link = dmul A (dmul A (getR link) (dcos A (dir_yaw link))) (dsin A (dir_pitch link))"

definition rel_dy :: "'a double_ops \<Rightarrow> ('a, 'z) MovableLink_scheme \<Rightarrow> 'a" where
  "rel_dy A link = dmul A (dmul A (getR link) (dsin A (dir_yaw link))) (dsin A (dir_pitch link))"

definition rel_dz :: "'a double_ops \<Rightarrow> ('a, 'z) MovableLink_scheme \<Rightarrow> 'a" where
  "rel_dz A link = dmul A (getR link) (dcos A (dir_pitch link))"

text \<open>\<open>link_position A path i\<close> is the absolute position \<open>P\<^sub>i\<close> of the link at chain index \<open>i\<close>.\<close>

definition link_position ::
  "'a double_ops \<Rightarrow> (int \<times> ('a, 'z) MovableLink_scheme) list \<Rightarrow> nat \<Rightarrow> 'a vec3" where
  "link_position A path i = prefix_position A (chain_links path) (Suc i)"

text \<open>The orientation of a link exceeds the bound checked for the link with id 1.\<close>

definition exceeds_half_pi :: "'a double_ops \<Rightarrow> ('a, 'z) MovableLink_scheme \<Rightarrow> bool" where
  "exceeds_half_pi A link =
     (dless A (dhalf_pi A) (dir_pitch link) \<or> dless A (dhalf_pi A) (dir_yaw link))"

text \<open>The link at chain index \<open>i\<close> has the key 1 and exceeds the bound.\<close>

definition domain_violation_at ::
  "'a double_ops \<Rightarrow> (int \<times> ('a, 'z) MovableLink_scheme) list \<Rightarrow> nat \<Rightarrow> bool" where
  "domain_violation_at A path i =
     (chain_ids path ! i = 1 \<and> exceeds_half_pi A (chain_links path ! i))"

text \<open>
  The distance of two points as the specification means it: the square root of the sum of
  the squares of the three coordinate differences.
\<close>

definition euclidean :: "'a double_ops \<Rightarrow> 'a vec3 \<Rightarrow> 'a vec3 \<Rightarrow> 'a" where
  "euclidean A p q =
     dsqrt A (dadd A (dadd A (dsq A (dsub A (fst p) (fst q)))
                             (dsq A (dsub A (fst (snd p)) (fst (snd q)))))
                     (dsq A (dsub A (snd (snd p)) (snd (snd q)))))"

text \<open>
  The link at chain index \<open>i\<close> is closer than 0.1 to the link at an earlier chain index.
\<close>

definition collision_at ::
  "'a double_ops \<Rightarrow> (int \<times> ('a, 'z) MovableLink_scheme) list \<Rightarrow> nat \<Rightarrow> bool" where
  "collision_at A path i =
     (\<exists>j \<in> {..<i}. dless A (euclidean A (link_position A path i) (link_position A path j)) (d01 A))"

text \<open>The message of a collision of the link with key \<open>k\<close> at a position.\<close>

definition collision_report :: "int \<Rightarrow> 'a vec3 \<Rightarrow> 'a report" where
  "collision_report k p = (case p of (x, y, z) \<Rightarrow> CollisionDetected k x y z)"

text \<open>
  Every key of \<open>chain\<close> is registered with a non-null pointer, and \<open>ls\<close> are the links
  behind the keys.
\<close>

definition resolves ::
  "('a, 'z) registry \<Rightarrow> int list \<Rightarrow> ('a, 'z) MovableLink_scheme list \<Rightarrow> bool" where
  "resolves links chain ls = (map (link_at links) chain = map Inr ls)"

text \<open>The registry with the roll of the link behind every key \<open>k\<close> replaced by \<open>f k\<close>.\<close>

definition set_rolls :: "(int \<Rightarrow> 'a) \<Rightarrow> ('a, 'z) registry \<Rightarrow> ('a, 'z) registry" where
  "set_rolls f links k =
     (case links k of
        None \<Rightarrow> None
      | Some nullptr \<Rightarrow> Some nullptr
      | Some (Ptr link) \<Rightarrow> Some (Ptr (link\<lparr>dir_roll := f k\<rparr>)))"

section \<open>Sample registries\<close>

definition mk_link :: "int \<Rightarrow> int \<Rightarrow> real \<Rightarrow> real \<Rightarrow> real \<Rightarrow> link_class \<Rightarrow> real MovableLink" where
  "mk_link i p r pitch yaw c =
     \<lparr> getId = i, getPrevId = p, getR = r, dir_pitch = pitch, dir_yaw = yaw, dir_roll = 0,
       dyn_type = c \<rparr>"

text \<open>Two unit links pointing straight up, the second attached to the first.\<close>

definition two_links :: "(real, unit) registry" where
  "two_links = [1 \<mapsto> Ptr (mk_link 1 0 1 0 0 PlainLink), 2 \<mapsto> Ptr (mk_link 2 1 1 0 0 PlainLink)]"

text \<open>A link whose predecessor 7 is not registered.\<close>

definition broken_chain :: "(real, unit) registry" where
  "broken_chain = [2 \<mapsto> Ptr (mk_link 2 7 1 0 0 PlainLink)]"



text \<open>A unit link and a link of length 0 attached to it.\<close>

definition folded :: "(real, unit) registry" where
  "folded = [1 \<mapsto> Ptr (mk_link 1 0 1 0 0 PlainLink), 2 \<mapsto> Ptr (mk_link 2 1 0 0 0 PlainLink)]"

text \<open>Two links, each the predecessor of the other.\<close>

definition cycle :: "(real, unit) registry" where
  "cycle = [2 \<mapsto> Ptr (mk_link 2 3 1 0 0 PlainLink), 3 \<mapsto> Ptr (mk_link 3 2 1 0 0 PlainLink)]"

text \<open>The registry \<open>two_links\<close> with other rolls.\<close>

definition rolled :: "(real, unit) registry" where
  "rolled = [1 \<mapsto> Ptr ((mk_link 1 0 1 0 0 PlainLink)\<lparr>dir_roll := 5\<rparr>),
             2 \<mapsto> Ptr ((mk_link 2 1 1 0 0 PlainLink)\<lparr>dir_roll := 7\<rparr>)]"

text \<open>
  Two links of length \<^verbatim>\<open>1e308\<close> and a link of length 0 in a row, all pointing straight up,
  with the numbers of the IEEE-like instance.
\<close>

definition mk_xlink :: "int \<Rightarrow> int \<Rightarrow> real \<Rightarrow> xdouble MovableLink" where
  "mk_xlink i p r =
     \<lparr> getId = i, getPrevId = p, getR = Finite r, dir_pitch = Finite 0, dir_yaw = Finite 0,
       dir_roll = Finite 0, dyn_type = PlainLink \<rparr>"

definition huge :: real where
  "huge = 10 ^ 308"

definition heavy :: "(xdouble, unit) registry" where
  "heavy = [1 \<mapsto> Ptr (mk_xlink 1 0 huge), 2 \<mapsto> Ptr (mk_xlink 2 1 huge),
            3 \<mapsto> Ptr (mk_xlink 3 2 0)]"

definition heavy_path :: "(int \<times> xdouble MovableLink) list" where
  "heavy_path = [(3, mk_xlink 3 2 0), (2, mk_xlink 2 1 huge), (1, mk_xlink 1 0 huge)]"

text \<open>A registry in which the key 0 is taken.\<close>

definition with_zero :: "(real, unit) registry" where
  "with_zero = [0 \<mapsto> Ptr (mk_link 0 0 1 0 0 PlainLink)]"

section \<open>The chain walk\<close>

lemma chain_walk_path:
  "walk_path links current_id path stop \<Longrightarrow>
   chain_walk links chain current_id = Some (Inr (chain @ map fst path, stop))"
proof (induction arbitrary: chain rule: walk_path.induct)
  case (walk_stop current_id links)
  then show ?case by (subst chain_walk.simps) auto
next
  case (walk_step current_id links link path stop)
  then show ?case by (subst chain_walk.simps) (simp add: link_at_def)
qed

lemma chain_walk_base: "chain_walk links chain 0 = Some (Inr (chain, 0))"
  by (subst chain_walk.simps) simp

lemma chain_walk_converse:
  assumes "chain_walk links chain current_id = Some (Inr (c, stop))"
  shows "\<exists>path. walk_path links current_id path stop \<and> c = chain @ map fst path"
proof -
  define P :: "('a, 'b) registry \<Rightarrow> int list \<Rightarrow> int \<Rightarrow> failure + int list \<times> int \<Rightarrow> bool"
    where "P = (\<lambda>links chain current_id res. \<forall>c stop. res = Inr (c, stop) \<longrightarrow>
      (\<exists>path. walk_path links current_id path stop \<and> c = chain @ map fst path))"
  have "P links chain current_id (Inr (c, stop))"
  proof (rule chain_walk.raw_induct [where P = P, OF _ assms])
    fix cw :: "('a, 'b) registry \<Rightarrow> int list \<Rightarrow> int \<Rightarrow> (failure + int list \<times> int) option"
      and links chain current_id res
    assume IH: "\<And>links chain current_id y. cw links chain current_id = Some y \<Longrightarrow>
        P links chain current_id y"
      and eq: "(if current_id \<noteq> 0 \<and> links current_id \<noteq> None
          then case link_at links current_id of
                 Inl e \<Rightarrow> Some (Inl e)
               | Inr link \<Rightarrow> cw links (chain @ [current_id]) (getPrevId link)
          else Some (Inr (chain, current_id))) = Some res"
    show "P links chain current_id res"
    proof (cases "current_id \<noteq> 0 \<and> links current_id \<noteq> None")
      case False
      with eq have "res = Inr (chain, current_id)" by auto
      moreover from False have "walk_path links current_id [] current_id"
        by (intro walk_stop) auto
      ultimately show ?thesis by (auto simp add: P_def)
    next
      case True
      show ?thesis
      proof (cases "link_at links current_id")
        case (Inl e)
        with True eq show ?thesis by (auto simp add: P_def)
      next
        case (Inr link)
        with True eq have "cw links (chain @ [current_id]) (getPrevId link) = Some res"
          by simp
        then have rec: "P links (chain @ [current_id]) (getPrevId link) res"
          by (rule IH)
        from Inr have lk: "links current_id = Some (Ptr link)"
          by (auto simp add: link_at_def split: option.splits pointer.splits)
        show ?thesis
          unfolding P_def
        proof (intro allI impI)
          fix c stop
          assume "res = Inr (c, stop)"
          with rec obtain path where
            p: "walk_path links (getPrevId link) path stop"
              "c = (chain @ [current_id]) @ map fst path"
            unfolding P_def by blast
          from True lk p(1) have "walk_path links current_id ((current_id, link) # path) stop"
            by (intro walk_step) simp_all
          with p(2) show "\<exists>path. walk_path links current_id path stop \<and> c = chain @ map fst path"
            by auto
        qed
      qed
    qed
  qed
  then show ?thesis by (simp add: P_def)
qed

lemma chain_walk_ends:
  "walk_ends links current_id \<Longrightarrow> \<exists>res. chain_walk links chain current_id = Some res"
proof (induction arbitrary: chain rule: walk_ends.induct)
  case (ends_here current_id links)
  then show ?case
    by (subst chain_walk.simps) (auto simp add: link_at_def)
next
  case (ends_later links current_id link)
  show ?case
  proof (cases "current_id = 0")
    case True
    then show ?thesis by (simp add: chain_walk_base)
  next
    case False
    with ends_later.hyps(1) have "chain_walk links chain current_id =
        chain_walk links (chain @ [current_id]) (getPrevId link)"
      by (subst chain_walk.simps) (simp add: link_at_def)
    with ends_later.IH [of "chain @ [current_id]"] show ?thesis by simp
  qed
qed

lemma chain_walk_returns_ends:
  assumes "chain_walk links chain current_id = Some res"
  shows "walk_ends links current_id"
proof -
  define P :: "('a, 'b) registry \<Rightarrow> int list \<Rightarrow> int \<Rightarrow> failure + int list \<times> int \<Rightarrow> bool"
    where "P = (\<lambda>links chain current_id res. walk_ends links current_id)"
  have "P links chain current_id res"
  proof (rule chain_walk.raw_induct [where P = P, OF _ assms])
    fix cw :: "('a, 'b) registry \<Rightarrow> int list \<Rightarrow> int \<Rightarrow> (failure + int list \<times> int) option"
      and links chain current_id res
    assume IH: "\<And>links chain current_id y. cw links chain current_id = Some y \<Longrightarrow>
        P links chain current_id y"
      and eq: "(if current_id \<noteq> 0 \<and> links current_id \<noteq> None
          then case link_at links current_id of
                 Inl e \<Rightarrow> Some (Inl e)
               | Inr link \<Rightarrow> cw links (chain @ [current_id]) (getPrevId link)
          else Some (Inr (chain, current_id))) = Some res"
    show "P links chain current_id res"
    proof (cases "links current_id")
      case None
      then show ?thesis by (simp add: P_def ends_here)
    next
      case (Some p)
      show ?thesis
      proof (cases p)
        case nullptr
        with Some show ?thesis by (simp add: P_def ends_here)
      next
        case (Ptr link)
        show ?thesis
        proof (cases "current_id = 0")
          case True
          then show ?thesis by (simp add: P_def ends_here)
        next
          case False
          with Some Ptr eq have "cw links (chain @ [current_id]) (getPrevId link) = Some res"
            by (simp add: link_at_def)
          then have "P links (chain @ [current_id]) (getPrevId link) res"
            by (rule IH)
          with Some Ptr show ?thesis
            by (auto simp add: P_def intro: ends_later)
        qed
      qed
    qed
  qed
  then show ?thesis by (simp add: P_def)
qed





section \<open>Chains in root-to-target order\<close>

lemma path_lengths:
  "length (chain_ids path) = length path" "length (chain_links path) = length path"
  by (simp_all add: chain_ids_def chain_links_def)


lemma chain_nth_mem:
  assumes "k < length path"
  shows "(chain_ids path ! k, chain_links path ! k) \<in> set path"
proof -
  have "rev path ! k \<in> set (rev path)"
    using assms by (intro nth_mem) simp
  moreover have "rev path ! k = (chain_ids path ! k, chain_links path ! k)"
    using assms by (simp add: chain_ids_def chain_links_def rev_map prod_eq_iff)
  ultimately show ?thesis by simp
qed



section \<open>The loops on a chain of registered links\<close>

lemma distance_euclidean: "distance A c p = euclidean A c p"
  by (cases c, cases p) (simp add: distance_def euclidean_def)

lemma resolves_length: "resolves links chain ls \<Longrightarrow> length ls = length chain"
  unfolding resolves_def by (metis length_map)

lemma resolves_nth:
  "resolves links chain ls \<Longrightarrow> i < length chain \<Longrightarrow> link_at links (chain ! i) = Inr (ls ! i)"
  unfolding resolves_def by (metis length_map nth_map)

lemma walk_path_resolves_aux:
  "walk_path links current_id path stop \<Longrightarrow>
   map (link_at links) (map fst path) = map Inr (map snd path)"
  by (induction rule: walk_path.induct) (simp_all add: link_at_def)

lemma walk_path_resolves:
  "walk_path links current_id path stop \<Longrightarrow> resolves links (chain_ids path) (chain_links path)"
  using walk_path_resolves_aux [of links current_id path stop]
  by (simp add: resolves_def chain_ids_def chain_links_def rev_map [symmetric])

lemma prefix_position_Suc:
  "i < length ls \<Longrightarrow>
   prefix_position A ls (Suc i) = vadd A (prefix_position A ls i) (displacement A (ls ! i))"
  by (simp add: prefix_position_def take_Suc_conv_app_nth)

lemma prev_position_resolved:
  "resolves links chain ls \<Longrightarrow> i < length chain \<Longrightarrow> j \<le> Suc i \<Longrightarrow>
   prev_position A links chain i j prev =
     Inr (foldl (vadd A) prev (map (displacement A) (drop j (take (Suc i) ls))))"
proof (induction A links chain i j prev rule: prev_position.induct)
  case (1 A links chain i j prev)
  show ?case
  proof (cases "j \<le> i")
    case True
    with "1.prems" have jl: "j < length chain" by simp
    have la: "link_at links (chain ! j) = Inr (ls ! j)"
      using "1.prems"(1) jl by (rule resolves_nth)
    have len: "length ls = length chain"
      using "1.prems"(1) by (rule resolves_length)
    have "j < length (take (Suc i) ls)"
      using True "1.prems"(2) len by simp
    then have dr: "drop j (take (Suc i) ls) = ls ! j # drop (Suc j) (take (Suc i) ls)"
      using True by (simp add: Cons_nth_drop_Suc [symmetric])
    have "prev_position A links chain i (j + 1) (vadd A prev (displacement A (ls ! j))) =
      Inr (foldl (vadd A) (vadd A prev (displacement A (ls ! j)))
            (map (displacement A) (drop (j + 1) (take (Suc i) ls))))"
      using True jl la "1.prems" by (intro "1.IH") simp_all
    then show ?thesis
      using True jl la dr by (subst prev_position.simps) simp
  next
    case False
    with "1.prems" have "j = Suc i" by simp
    then show ?thesis
      by (subst prev_position.simps) simp
  qed
qed

lemma prev_position_prefix:
  "resolves links chain ls \<Longrightarrow> i < length chain \<Longrightarrow>
   prev_position A links chain i 0 (d0 A, d0 A, d0 A) = Inr (prefix_position A ls (Suc i))"
  by (simp add: prev_position_resolved prefix_position_def)

lemma checkCollision_from_resolved:
  "resolves links chain ls \<Longrightarrow> current_index \<le> length chain \<Longrightarrow>
   checkCollision_from A links chain current_index current i =
     Inr (\<not> (\<exists>k. i \<le> k \<and> k < current_index \<and>
                 dless A (distance A current (prefix_position A ls (Suc k))) (d01 A)))"
proof (induction A links chain current_index current i rule: checkCollision_from.induct)
  case (1 A links chain current_index current i)
  define Q where "Q k = dless A (distance A current (prefix_position A ls (Suc k))) (d01 A)" for k
  show ?case
    unfolding Q_def [symmetric]
  proof (cases "i < current_index")
    case True
    with "1.prems" have pp: "prev_position A links chain i 0 (d0 A, d0 A, d0 A) =
        Inr (prefix_position A ls (Suc i))"
      by (intro prev_position_prefix) simp_all
    show "checkCollision_from A links chain current_index current i =
        Inr (\<not> (\<exists>k. i \<le> k \<and> k < current_index \<and> Q k))"
    proof (cases "Q i")
      case hit: True
      then have "\<exists>k. i \<le> k \<and> k < current_index \<and> Q k"
        using True by blast
      then show ?thesis
        using True pp hit by (subst checkCollision_from.simps) (simp add: Q_def)
    next
      case miss: False
      have "checkCollision_from A links chain current_index current (i + 1) =
          Inr (\<not> (\<exists>k. i + 1 \<le> k \<and> k < current_index \<and> Q k))"
        unfolding Q_def
        using True pp miss "1.prems" by (intro "1.IH") (simp_all add: Q_def)
      moreover have "(\<exists>k. i + 1 \<le> k \<and> k < current_index \<and> Q k) =
          (\<exists>k. i \<le> k \<and> k < current_index \<and> Q k)"
        using miss by (metis Suc_eq_plus1 Suc_leD Suc_leI le_neq_implies_less)
      moreover have "checkCollision_from A links chain current_index current i =
          checkCollision_from A links chain current_index current (i + 1)"
        using True pp miss by (subst checkCollision_from.simps) (simp add: Q_def)
      ultimately show ?thesis by (simp only:)
    qed
  next
    case False
    then show "checkCollision_from A links chain current_index current i =
        Inr (\<not> (\<exists>k. i \<le> k \<and> k < current_index \<and> Q k))"
      by (subst checkCollision_from.simps) auto
  qed
qed

lemma position_loop_step:
  assumes "resolves links chain ls" and "i < length chain"
  shows "position_loop A links chain i xyz =
    (if chain ! i = 1 \<and> exceeds_half_pi A (ls ! i)
     then Inr ([DomainViolation (dir_pitch (ls ! i)) (dir_yaw (ls ! i))], (d0 A, d0 A, d0 A))
     else if \<exists>j<i. dless A (distance A (vadd A xyz (displacement A (ls ! i)))
                               (prefix_position A ls (Suc j))) (d01 A)
     then Inr ([collision_report (chain ! i) (vadd A xyz (displacement A (ls ! i)))],
               (d0 A, d0 A, d0 A))
     else position_loop A links chain (Suc i) (vadd A xyz (displacement A (ls ! i))))"
proof -
  have la: "link_at links (chain ! i) = Inr (ls ! i)"
    using assms by (rule resolves_nth)
  obtain x y z where v: "vadd A xyz (displacement A (ls ! i)) = (x, y, z)"
    by (cases "vadd A xyz (displacement A (ls ! i))") 
  have cc: "checkCollision A links chain i x y z =
      Inr (\<not> (\<exists>k<i. dless A (distance A (x, y, z) (prefix_position A ls (Suc k))) (d01 A)))"
    using assms by (simp add: checkCollision_def checkCollision_from_resolved)
  show ?thesis
    using assms(2) la v cc
    by (subst position_loop.simps)
       (auto simp add: exceeds_half_pi_def getDirection_def collision_report_def Let_def)
qed

lemma position_loop_skip:
  assumes r: "resolves links chain ls"
    and ok: "\<forall>k<i. \<not> (chain ! k = 1 \<and> exceeds_half_pi A (ls ! k)) \<and>
               \<not> (\<exists>j<k. dless A (distance A (prefix_position A ls (Suc k))
                                   (prefix_position A ls (Suc j))) (d01 A))"
    and le: "i \<le> length chain"
  shows "position_loop A links chain 0 (d0 A, d0 A, d0 A) =
         position_loop A links chain i (prefix_position A ls i)"
  using ok le
proof (induction i)
  case 0
  show ?case by (simp add: prefix_position_def)
next
  case (Suc i)
  have len: "length ls = length chain"
    using r by (rule resolves_length)
  from Suc.prems have il: "i < length chain" by simp
  have ps: "prefix_position A ls (Suc i) =
      vadd A (prefix_position A ls i) (displacement A (ls ! i))"
    using il len by (simp add: prefix_position_Suc)
  have "position_loop A links chain 0 (d0 A, d0 A, d0 A) =
      position_loop A links chain i (prefix_position A ls i)"
    using Suc.prems by (intro Suc.IH) simp_all
  also have "\<dots> = position_loop A links chain (Suc i) (prefix_position A ls (Suc i))"
  proof -
    from Suc.prems(1) have nd: "\<not> (chain ! i = 1 \<and> exceeds_half_pi A (ls ! i))"
      and nc: "\<not> (\<exists>j<i. dless A (distance A (prefix_position A ls (Suc i))
                                   (prefix_position A ls (Suc j))) (d01 A))"
      by blast+
    from nd nc show ?thesis
      unfolding position_loop_step [OF r il, of A "prefix_position A ls i"] ps [symmetric]
      by (simp only: if_False)
  qed
  finally show ?case .
qed

lemma position_loop_end:
  "length chain \<le> i \<Longrightarrow> position_loop A links chain i xyz = Inr ([], xyz)"
  by (subst position_loop.simps) simp

lemma foldl_vadd_components:
  "foldl (vadd A) (x, y, z) (map (displacement A) ls) =
     (foldl (dadd A) x (map (rel_dx A) ls),
      foldl (dadd A) y (map (rel_dy A) ls),
      foldl (dadd A) z (map (rel_dz A) ls))"
  by (induction ls arbitrary: x y z)
     (simp_all add: vadd_def displacement_def rel_dx_def rel_dy_def rel_dz_def getDirection_def
        Let_def)

section \<open>The outcome of a call on a complete chain\<close>

lemma calculatePosition_complete:
  assumes w: "walk_path links id' path 0" and reg: "ndebug \<or> links id' \<noteq> None"
  shows "calculatePosition A ndebug links id' =
    Some (position_loop A links (chain_ids path) 0 (d0 A, d0 A, d0 A))"
  using reg by (auto simp add: calculatePosition_def chain_walk_path [OF w] chain_ids_def)

lemma calculatePosition_reaches:
  assumes w: "walk_path links id' path 0" and reg: "ndebug \<or> links id' \<noteq> None"
    and le: "i \<le> length path"
    and ok: "\<forall>k<i. \<not> domain_violation_at A path k \<and> \<not> collision_at A path k"
  shows "calculatePosition A ndebug links id' =
    Some (position_loop A links (chain_ids path) i (prefix_position A (chain_links path) i))"
proof -
  have r: "resolves links (chain_ids path) (chain_links path)"
    using w by (rule walk_path_resolves)
  have "position_loop A links (chain_ids path) 0 (d0 A, d0 A, d0 A) =
      position_loop A links (chain_ids path) i (prefix_position A (chain_links path) i)"
    using r _ le [folded path_lengths(1)]
  proof (rule position_loop_skip)
    show "\<forall>k<i. \<not> (chain_ids path ! k = 1 \<and> exceeds_half_pi A (chain_links path ! k)) \<and>
       \<not> (\<exists>j<k. dless A (distance A (prefix_position A (chain_links path) (Suc k))
                 (prefix_position A (chain_links path) (Suc j))) (d01 A))"
      using ok
      by (auto simp add: domain_violation_at_def collision_at_def link_position_def
          distance_euclidean)
  qed
  with calculatePosition_complete [OF w reg, of A] show ?thesis by simp
qed

lemma position_loop_at:
  assumes w: "walk_path links id' path stop" and i: "i < length path"
  shows "position_loop A links (chain_ids path) i (prefix_position A (chain_links path) i) =
    (if domain_violation_at A path i
     then Inr ([DomainViolation (dir_pitch (chain_links path ! i)) (dir_yaw (chain_links path ! i))],
               (d0 A, d0 A, d0 A))
     else if collision_at A path i
     then Inr ([collision_report (chain_ids path ! i) (link_position A path i)], (d0 A, d0 A, d0 A))
     else position_loop A links (chain_ids path) (Suc i) (link_position A path i))"
proof -
  have r: "resolves links (chain_ids path) (chain_links path)"
    using w by (rule walk_path_resolves)
  have ps: "vadd A (prefix_position A (chain_links path) i) (displacement A (chain_links path ! i))
      = link_position A path i"
    using i by (simp add: link_position_def prefix_position_Suc path_lengths)
  have ce: "(\<exists>j<i. dless A (distance A (link_position A path i)
        (prefix_position A (chain_links path) (Suc j))) (d01 A)) = collision_at A path i"
    by (auto simp add: collision_at_def link_position_def distance_euclidean)
  from i have il: "i < length (chain_ids path)"
    by (simp add: path_lengths)
  show ?thesis
    unfolding position_loop_step [OF r il, of A] ps ce domain_violation_at_def ..
qed


section \<open>Registries that differ in roll only\<close>

lemma link_at_set_rolls:
  "link_at (set_rolls f links) k =
     (case link_at links k of Inl e \<Rightarrow> Inl e | Inr link \<Rightarrow> Inr (link\<lparr>dir_roll := f k\<rparr>))"
  by (simp add: link_at_def set_rolls_def split: option.splits pointer.splits)

lemma set_rolls_None: "(set_rolls f links k = None) = (links k = None)"
  by (simp add: set_rolls_def split: option.splits pointer.splits)

lemma displacement_roll: "displacement A (link\<lparr>dir_roll := x\<rparr>) = displacement A link"
  by (simp add: displacement_def getDirection_def)

lemma prev_position_set_rolls:
  "prev_position A (set_rolls f links) chain i j prev = prev_position A links chain i j prev"
proof (induction "Suc i - j" arbitrary: j prev)
  case 0
  then have "\<not> j \<le> i" by simp
  then show ?case
    by (subst prev_position.simps [of A links chain i j prev],
        subst prev_position.simps [of A "set_rolls f links" chain i j prev]) simp
next
  case (Suc n)
  have IH: "prev_position A (set_rolls f links) chain i (Suc j) p =
      prev_position A links chain i (Suc j) p" for p
    using Suc.hyps(2) by (intro Suc.hyps(1)) simp
  show ?case
    by (subst prev_position.simps [of A links chain i j prev],
        subst prev_position.simps [of A "set_rolls f links" chain i j prev])
       (simp add: link_at_set_rolls displacement_roll IH split: sum.splits)
qed

lemma checkCollision_from_set_rolls:
  "checkCollision_from A (set_rolls f links) chain current_index current i =
   checkCollision_from A links chain current_index current i"
proof (induction "current_index - i" arbitrary: i)
  case 0
  then have "\<not> i < current_index" by simp
  then show ?case
    by (subst checkCollision_from.simps [of A links chain current_index current i],
        subst checkCollision_from.simps [of A "set_rolls f links" chain current_index current i])
       simp
next
  case (Suc n)
  have IH: "checkCollision_from A (set_rolls f links) chain current_index current (Suc i) =
      checkCollision_from A links chain current_index current (Suc i)"
    using Suc.hyps(2) by (intro Suc.hyps(1)) simp
  show ?case
    by (subst checkCollision_from.simps [of A links chain current_index current i],
        subst checkCollision_from.simps [of A "set_rolls f links" chain current_index current i])
       (simp add: prev_position_set_rolls IH split: sum.splits)
qed

lemma checkCollision_set_rolls:
  "checkCollision A (set_rolls f links) chain i x y z = checkCollision A links chain i x y z"
  by (simp add: checkCollision_def checkCollision_from_set_rolls)

lemma position_loop_set_rolls:
  "position_loop A (set_rolls f links) chain i xyz = position_loop A links chain i xyz"
proof (induction "length chain - i" arbitrary: i xyz)
  case 0
  then have "\<not> i < length chain" by simp
  then show ?case
    by (subst position_loop.simps [of A links chain i xyz],
        subst position_loop.simps [of A "set_rolls f links" chain i xyz]) simp
next
  case (Suc n)
  have IH: "position_loop A (set_rolls f links) chain (Suc i) p =
      position_loop A links chain (Suc i) p" for p
    using Suc.hyps(2) by (intro Suc.hyps(1)) simp
  show ?case
    using IH
    by (subst position_loop.simps [of A links chain i xyz],
        subst position_loop.simps [of A "set_rolls f links" chain i xyz])
       (auto simp add: link_at_set_rolls displacement_roll checkCollision_set_rolls
          getDirection_def Let_def split: sum.splits prod.splits)
qed

lemma chain_walk_set_rolls_to:
  assumes "chain_walk links chain current_id = Some res"
  shows "chain_walk (set_rolls f links) chain current_id = Some res"
proof -
  define P :: "('a, 'b) registry \<Rightarrow> int list \<Rightarrow> int \<Rightarrow> failure + int list \<times> int \<Rightarrow> bool"
    where "P = (\<lambda>links chain current_id res.
      chain_walk (set_rolls f links) chain current_id = Some res)"
  have "P links chain current_id res"
  proof (rule chain_walk.raw_induct [where P = P, OF _ assms])
    fix cw :: "('a, 'b) registry \<Rightarrow> int list \<Rightarrow> int \<Rightarrow> (failure + int list \<times> int) option"
      and links chain current_id res
    assume IH: "\<And>links chain current_id y. cw links chain current_id = Some y \<Longrightarrow>
        P links chain current_id y"
      and eq: "(if current_id \<noteq> 0 \<and> links current_id \<noteq> None
          then case link_at links current_id of
                 Inl e \<Rightarrow> Some (Inl e)
               | Inr link \<Rightarrow> cw links (chain @ [current_id]) (getPrevId link)
          else Some (Inr (chain, current_id))) = Some res"
    show "P links chain current_id res"
    proof (cases "current_id \<noteq> 0 \<and> links current_id \<noteq> None")
      case False
      with eq show ?thesis
        unfolding P_def
        by (subst chain_walk.simps) (auto simp add: set_rolls_None)
    next
      case True
      show ?thesis
      proof (cases "link_at links current_id")
        case (Inl e)
        with True eq show ?thesis
          unfolding P_def
          by (subst chain_walk.simps) (auto simp add: set_rolls_None link_at_set_rolls)
      next
        case (Inr link)
        with True eq have "cw links (chain @ [current_id]) (getPrevId link) = Some res"
          by simp
        then have "P links (chain @ [current_id]) (getPrevId link) res"
          by (rule IH)
        with True Inr show ?thesis
          unfolding P_def
          by (subst chain_walk.simps) (simp add: set_rolls_None link_at_set_rolls)
      qed
    qed
  qed
  then show ?thesis by (simp add: P_def)
qed

lemma chain_walk_set_rolls_from:
  assumes "chain_walk (set_rolls f links) chain current_id = Some res"
  shows "chain_walk links chain current_id = Some res"
proof -
  define P :: "('a, 'b) registry \<Rightarrow> int list \<Rightarrow> int \<Rightarrow> failure + int list \<times> int \<Rightarrow> bool"
    where "P = (\<lambda>links' chain current_id res. \<forall>links. links' = set_rolls f links \<longrightarrow>
      chain_walk links chain current_id = Some res)"
  have "P (set_rolls f links) chain current_id res"
  proof (rule chain_walk.raw_induct [where P = P, OF _ assms])
    fix cw :: "('a, 'b) registry \<Rightarrow> int list \<Rightarrow> int \<Rightarrow> (failure + int list \<times> int) option"
      and links' chain current_id res
    assume IH: "\<And>links chain current_id y. cw links chain current_id = Some y \<Longrightarrow>
        P links chain current_id y"
      and eq: "(if current_id \<noteq> 0 \<and> links' current_id \<noteq> None
          then case link_at links' current_id of
                 Inl e \<Rightarrow> Some (Inl e)
               | Inr link \<Rightarrow> cw links' (chain @ [current_id]) (getPrevId link)
          else Some (Inr (chain, current_id))) = Some res"
    show "P links' chain current_id res"
      unfolding P_def
    proof (intro allI impI)
      fix links :: "('a, 'b) registry"
      assume l: "links' = set_rolls f links"
      show "chain_walk links chain current_id = Some res"
      proof (cases "current_id \<noteq> 0 \<and> links current_id \<noteq> None")
        case False
        with eq l show ?thesis
          by (subst chain_walk.simps) (auto simp add: set_rolls_None)
      next
        case True
        show ?thesis
        proof (cases "link_at links current_id")
          case (Inl e)
          with True eq l show ?thesis
            by (subst chain_walk.simps) (auto simp add: set_rolls_None link_at_set_rolls)
        next
          case (Inr link)
          with True eq l have "cw links' (chain @ [current_id]) (getPrevId link) = Some res"
            by (simp add: set_rolls_None link_at_set_rolls)
          then have "P links' (chain @ [current_id]) (getPrevId link) res"
            by (rule IH)
          with l have "chain_walk links (chain @ [current_id]) (getPrevId link) = Some res"
            by (simp add: P_def)
          with True Inr show ?thesis
            by (subst chain_walk.simps) simp
        qed
      qed
    qed
  qed
  then show ?thesis by (simp add: P_def)
qed

lemma chain_walk_set_rolls:
  "chain_walk (set_rolls f links) chain current_id = chain_walk links chain current_id"
proof (cases "chain_walk links chain current_id")
  case None
  show ?thesis
  proof (cases "chain_walk (set_rolls f links) chain current_id")
    case (Some res)
    then have "chain_walk links chain current_id = Some res"
      by (rule chain_walk_set_rolls_from)
    with None show ?thesis by simp
  qed (simp add: None)
next
  case (Some res)
  then show ?thesis by (simp add: chain_walk_set_rolls_to)
qed

lemma calculatePosition_set_rolls:
  "calculatePosition A ndebug (set_rolls f links) id' = calculatePosition A ndebug links id'"
  by (simp add: calculatePosition_def chain_walk_set_rolls position_loop_set_rolls set_rolls_None
      split: option.splits sum.splits prod.splits)

section \<open>Paths and positions in the sample registries\<close>

lemma two_links_path:
  "walk_path two_links 2 [(2, mk_link 2 1 1 0 0 PlainLink), (1, mk_link 1 0 1 0 0 PlainLink)] 0"
proof -
  have l1: "two_links 1 = Some (Ptr (mk_link 1 0 1 0 0 PlainLink))"
    and l2: "two_links 2 = Some (Ptr (mk_link 2 1 1 0 0 PlainLink))"
    by (simp_all add: two_links_def)
  have g1: "getPrevId (mk_link 1 0 1 0 0 PlainLink) = 0"
    and g2: "getPrevId (mk_link 2 1 1 0 0 PlainLink) = 1"
    by (simp_all add: mk_link_def)
  have a: "walk_path two_links 0 [] 0"
    by (rule walk_stop) simp
  have b: "walk_path two_links 1 [(1, mk_link 1 0 1 0 0 PlainLink)] 0"
    using walk_step [of 1 two_links "mk_link 1 0 1 0 0 PlainLink" "[]" 0] l1 g1 a by simp
  show ?thesis
    using walk_step [of 2 two_links "mk_link 2 1 1 0 0 PlainLink"
        "[(1, mk_link 1 0 1 0 0 PlainLink)]" 0] l2 g2 b by simp
qed


lemma folded_path:
  "walk_path folded 2 [(2, mk_link 2 1 0 0 0 PlainLink), (1, mk_link 1 0 1 0 0 PlainLink)] 0"
proof -
  have l1: "folded 1 = Some (Ptr (mk_link 1 0 1 0 0 PlainLink))"
    and l2: "folded 2 = Some (Ptr (mk_link 2 1 0 0 0 PlainLink))"
    by (simp_all add: folded_def)
  have g1: "getPrevId (mk_link 1 0 1 0 0 PlainLink) = 0"
    and g2: "getPrevId (mk_link 2 1 0 0 0 PlainLink) = 1"
    by (simp_all add: mk_link_def)
  have a: "walk_path folded 0 [] 0"
    by (rule walk_stop) simp
  have b: "walk_path folded 1 [(1, mk_link 1 0 1 0 0 PlainLink)] 0"
    using walk_step [of 1 folded "mk_link 1 0 1 0 0 PlainLink" "[]" 0] l1 g1 a by simp
  show ?thesis
    using walk_step [of 2 folded "mk_link 2 1 0 0 0 PlainLink"
        "[(1, mk_link 1 0 1 0 0 PlainLink)]" 0] l2 g2 b by simp
qed

lemma cycle_never_ends: "walk_ends cycle current_id \<Longrightarrow> current_id \<noteq> 2 \<and> current_id \<noteq> 3"
proof (induction cycle current_id rule: walk_ends.induct)
  case (ends_here current_id)
  then show ?case by (auto simp add: cycle_def)
next
  case (ends_later current_id link)
  then show ?case
    by (auto simp add: cycle_def mk_link_def split: if_splits)
qed

lemma rolled_position:
  "calculatePosition real_ops False rolled 2 = Some (Inr ([], (0, 0, 2)))"
  by (simp add: calculatePosition_def rolled_def mk_link_def chain_walk.simps link_at_def
      position_loop.simps checkCollision_def checkCollision_from.simps prev_position.simps
      getDirection_def displacement_def distance_def vadd_def real_ops_def)

lemma heavy_walk: "walk_path heavy 3 heavy_path 0"
proof -
  have l: "heavy 1 = Some (Ptr (mk_xlink 1 0 huge))" "heavy 2 = Some (Ptr (mk_xlink 2 1 huge))"
    "heavy 3 = Some (Ptr (mk_xlink 3 2 0))"
    by (simp_all add: heavy_def)
  have g: "getPrevId (mk_xlink 1 0 huge) = 0" "getPrevId (mk_xlink 2 1 huge) = 1"
    "getPrevId (mk_xlink 3 2 0) = 2"
    by (simp_all add: mk_xlink_def)
  have a: "walk_path heavy 0 [] 0"
    by (rule walk_stop) simp
  have b: "walk_path heavy 1 [(1, mk_xlink 1 0 huge)] 0"
    using walk_step [of 1 heavy "mk_xlink 1 0 huge" "[]" 0] l g a by simp
  have c: "walk_path heavy 2 [(2, mk_xlink 2 1 huge), (1, mk_xlink 1 0 huge)] 0"
    using walk_step [of 2 heavy "mk_xlink 2 1 huge" "[(1, mk_xlink 1 0 huge)]" 0] l g b by simp
  show ?thesis
    using walk_step [of 3 heavy "mk_xlink 3 2 0"
        "[(2, mk_xlink 2 1 huge), (1, mk_xlink 1 0 huge)]" 0] l g c
    by (simp add: heavy_path_def)
qed

lemma overflow_values:
  "overflow 0 = Finite 0" "overflow huge = Finite huge"
  "overflow (huge + huge) = PosInf" "overflow (2 * huge) = PosInf"
  by (simp_all add: overflow_def max_double_def huge_def)

lemma heavy_positions:
  "link_position ieee_ops heavy_path 0 = (Finite 0, Finite 0, Finite huge)"
  "link_position ieee_ops heavy_path (Suc 0) = (Finite 0, Finite 0, PosInf)"
  "link_position ieee_ops heavy_path (Suc (Suc 0)) = (Finite 0, Finite 0, PosInf)"
  by (simp_all add: link_position_def prefix_position_def chain_links_def heavy_path_def
      displacement_def getDirection_def vadd_def ieee_ops_def mk_xlink_def overflow_values Let_def)

lemma heavy_result:
  "calculatePosition ieee_ops False heavy 3 = Some (Inr ([], (Finite 0, Finite 0, PosInf)))"
  by (simp add: calculatePosition_def heavy_def mk_xlink_def chain_walk.simps link_at_def
      position_loop.simps checkCollision_def checkCollision_from.simps prev_position.simps
      getDirection_def displacement_def distance_def vadd_def ieee_ops_def xsub_def
      overflow_values Let_def)

lemma ieee_self_distance:
  "dless ieee_ops (euclidean ieee_ops (Finite a, Finite b, Finite c) (Finite a, Finite b, Finite c))
     (d01 ieee_ops)"
  by (simp add: euclidean_def ieee_ops_def xsub_def overflow_values)

section \<open>Positions along a complete chain\<close>

text \<open>
  C1. Let the target be registered, let its \<^verbatim>\<open>prevId\<close> chain end at the base 0, let every link
  of the chain with key 1 be within the bound on pitch and yaw, and let no link of the chain
  be closer than 0.1 to a link before it in the chain. Then \<open>calculatePosition\<close> returns,
  without a report, the componentwise sum of the displacements
  \<open>(r\<cdot>cos(yaw)\<cdot>sin(pitch), r\<cdot>sin(yaw)\<cdot>sin(pitch), r\<cdot>cos(pitch))\<close> of the links of the chain
  in root-to-target order, accumulated from \<open>(0, 0, 0)\<close>.
\<close>

theorem calculatePosition_sum:
  assumes w: "walk_path links id' path 0" and reg: "links id' \<noteq> None"
    and dom: "\<forall>(k, link) \<in> set path. k = 1 \<longrightarrow> \<not> exceeds_half_pi A link"
    and sep: "\<forall>i \<in> {..<length path}. \<forall>j \<in> {..<i}.
        \<not> dless A (distance A (link_position A path i) (link_position A path j)) (d01 A)"
  shows "calculatePosition A ndebug links id' =
    Some (Inr ([], (foldl (dadd A) (d0 A) (map (rel_dx A) (chain_links path)),
                    foldl (dadd A) (d0 A) (map (rel_dy A) (chain_links path)),
                    foldl (dadd A) (d0 A) (map (rel_dz A) (chain_links path)))))"
proof -
  have nd: "\<not> domain_violation_at A path k" if "k < length path" for k
  proof
    assume d: "domain_violation_at A path k"
    have "(chain_ids path ! k, chain_links path ! k) \<in> set path"
      using that by (rule chain_nth_mem)
    with dom d show False
      by (auto simp add: domain_violation_at_def)
  qed
  have nc: "\<not> collision_at A path k" if "k < length path" for k
    using sep that by (auto simp add: collision_at_def distance_euclidean)
  have "calculatePosition A ndebug links id' =
    Some (position_loop A links (chain_ids path) (length path)
            (prefix_position A (chain_links path) (length path)))"
    using w _ le_refl
  proof (rule calculatePosition_reaches)
    show "ndebug \<or> links id' \<noteq> None" using reg by simp
    show "\<forall>k<length path. \<not> domain_violation_at A path k \<and> \<not> collision_at A path k"
      using nd nc by simp
  qed
  also have "\<dots> = Some (Inr ([], prefix_position A (chain_links path) (length path)))"
    by (simp add: position_loop_end path_lengths)
  also have "prefix_position A (chain_links path) (length path) =
     (foldl (dadd A) (d0 A) (map (rel_dx A) (chain_links path)),
      foldl (dadd A) (d0 A) (map (rel_dy A) (chain_links path)),
      foldl (dadd A) (d0 A) (map (rel_dz A) (chain_links path)))"
    by (simp add: prefix_position_def foldl_vadd_components path_lengths)
  finally show ?thesis .
qed

theorem calculatePosition_sum_witness:
  "walk_path two_links 2 [(2, mk_link 2 1 1 0 0 PlainLink), (1, mk_link 1 0 1 0 0 PlainLink)] 0 \<and>
   calculatePosition real_ops False two_links 2 = Some (Inr ([], (0, 0, 2)))"
proof -
  let ?path = "[(2, mk_link 2 1 1 0 0 PlainLink), (1, mk_link 1 0 1 0 0 PlainLink)]"
  have reg: "two_links 2 \<noteq> None"
    by (simp add: two_links_def)
  have dom: "\<forall>(k, link) \<in> set ?path. k = 1 \<longrightarrow> \<not> exceeds_half_pi real_ops link"
    by (simp add: exceeds_half_pi_def real_ops_def mk_link_def)
  have p0: "link_position real_ops ?path 0 = (0, 0, 1)"
    by (simp add: link_position_def prefix_position_def chain_links_def displacement_def
        getDirection_def vadd_def real_ops_def mk_link_def)
  have p1: "link_position real_ops ?path (Suc 0) = (0, 0, 2)"
    by (simp add: link_position_def prefix_position_def chain_links_def displacement_def
        getDirection_def vadd_def real_ops_def mk_link_def)
  have sep: "\<forall>i \<in> {..<length ?path}. \<forall>j \<in> {..<i}.
      \<not> dless real_ops (distance real_ops (link_position real_ops ?path i)
            (link_position real_ops ?path j)) (d01 real_ops)"
    by (simp add: lessThan_Suc p0 p1) (simp add: distance_def real_ops_def)
  from calculatePosition_sum [where A = real_ops and ndebug = False, OF two_links_path reg dom sep]
    two_links_path
  show ?thesis
    by (simp add: chain_links_def rel_dx_def rel_dy_def rel_dz_def real_ops_def mk_link_def)
qed

text \<open>
  C2, as the code has it. Let the chain of the target end at the base, and let
  \<open>calculatePosition\<close> arrive at chain index \<open>i\<close> (no earlier link was rejected) and place the
  link there at its position \<open>P\<^sub>i\<close> (the link passes the check of link 1). The positions
  \<open>P\<^sub>j\<close> of the earlier links are the displacements summed again from the root through \<open>j\<close>,
  and \<open>checkCollision\<close> at index \<open>i\<close> returns false exactly when one of them is closer than
  0.1 to the position it is given, the distance being the square root of the sum of the
  squared coordinate differences. Then the call returns \<open>(0, 0, 0)\<close> with the collision
  report exactly when \<open>distance(P\<^sub>i, P\<^sub>j) < 0.1\<close> for some \<open>j < i\<close>, and goes on to index
  \<open>i + 1\<close> with \<open>P\<^sub>i\<close> otherwise. The first link, \<open>i = 0\<close>, has no collision check. A link
  placed at the very position of an earlier link is a collision when the distance of that
  position to itself compares as less than 0.1. It does for every position with finite
  coordinates; it does not for a position with an infinite coordinate, where the distance is
  NaN: see the counterexample.
\<close>

theorem collision_check_at_index:
  assumes w: "walk_path links id' path 0" and reg: "ndebug \<or> links id' \<noteq> None"
    and i: "i < length path"
    and before: "\<forall>k \<in> {..<i}. \<not> domain_violation_at A path k \<and> \<not> collision_at A path k"
    and placed: "\<not> domain_violation_at A path i"
  shows "checkCollision A links (chain_ids path) i x y z =
      Inr (\<not> (\<exists>j \<in> {..<i}. dless A (euclidean A (x, y, z) (link_position A path j)) (d01 A))) \<and>
    calculatePosition A ndebug links id' =
      (if collision_at A path i
       then Some (Inr ([collision_report (chain_ids path ! i) (link_position A path i)],
                       (d0 A, d0 A, d0 A)))
       else Some (position_loop A links (chain_ids path) (Suc i) (link_position A path i))) \<and>
    (i = 0 \<longrightarrow> calculatePosition A ndebug links id' =
       Some (position_loop A links (chain_ids path) (Suc 0) (link_position A path 0))) \<and>
    ((\<exists>j \<in> {..<i}. link_position A path j = link_position A path i) \<and>
     dless A (euclidean A (link_position A path i) (link_position A path i)) (d01 A) \<longrightarrow>
       calculatePosition A ndebug links id' =
         Some (Inr ([collision_report (chain_ids path ! i) (link_position A path i)],
                    (d0 A, d0 A, d0 A))))"
proof -
  have "calculatePosition A ndebug links id' =
      Some (position_loop A links (chain_ids path) i (prefix_position A (chain_links path) i))"
    using w reg _ _
  proof (rule calculatePosition_reaches)
    show "i \<le> length path" using i by simp
    show "\<forall>k<i. \<not> domain_violation_at A path k \<and> \<not> collision_at A path k"
      using before by simp
  qed
  with position_loop_at [OF w i, of A] placed
  have main: "calculatePosition A ndebug links id' =
      (if collision_at A path i
       then Some (Inr ([collision_report (chain_ids path ! i) (link_position A path i)],
                       (d0 A, d0 A, d0 A)))
       else Some (position_loop A links (chain_ids path) (Suc i) (link_position A path i)))"
    by simp
  have "resolves links (chain_ids path) (chain_links path)"
    using w by (rule walk_path_resolves)
  then have "checkCollision_from A links (chain_ids path) i (x, y, z) 0 =
      Inr (\<not> (\<exists>k. 0 \<le> k \<and> k < i \<and>
        dless A (distance A (x, y, z) (prefix_position A (chain_links path) (Suc k))) (d01 A)))"
    using i by (intro checkCollision_from_resolved) (simp_all add: path_lengths)
  then have check: "checkCollision A links (chain_ids path) i x y z =
      Inr (\<not> (\<exists>j \<in> {..<i}. dless A (euclidean A (x, y, z) (link_position A path j)) (d01 A)))"
    by (simp add: checkCollision_def link_position_def Bex_def distance_euclidean)
  have zero: "\<not> collision_at A path 0"
    by (simp add: collision_at_def)
  have same: "collision_at A path i"
    if "\<exists>j \<in> {..<i}. link_position A path j = link_position A path i"
      and "dless A (euclidean A (link_position A path i) (link_position A path i)) (d01 A)"
  proof -
    from that(1) obtain j where j: "j \<in> {..<i}"
      and e: "link_position A path j = link_position A path i"
      by blast
    from that(2) e
    have "dless A (euclidean A (link_position A path i) (link_position A path j)) (d01 A)"
      by simp
    with j show ?thesis
      unfolding collision_at_def by blast
  qed
  from check main zero same show ?thesis by auto
qed

theorem collision_check_at_index_witness:
  "walk_path folded 2 [(2, mk_link 2 1 0 0 0 PlainLink), (1, mk_link 1 0 1 0 0 PlainLink)] 0 \<and>
   link_position real_ops [(2, mk_link 2 1 0 0 0 PlainLink), (1, mk_link 1 0 1 0 0 PlainLink)] 0
     = (0, 0, 1) \<and>
   link_position real_ops [(2, mk_link 2 1 0 0 0 PlainLink), (1, mk_link 1 0 1 0 0 PlainLink)] 1
     = (0, 0, 1) \<and>
   calculatePosition real_ops False folded 2 = Some (Inr ([CollisionDetected 2 0 0 1], (0, 0, 0)))"
proof -
  let ?path = "[(2, mk_link 2 1 0 0 0 PlainLink), (1, mk_link 1 0 1 0 0 PlainLink)]"
  have reg: "False \<or> folded 2 \<noteq> None"
    by (simp add: folded_def)
  have i: "Suc 0 < length ?path"
    by simp
  have p0: "link_position real_ops ?path 0 = (0, 0, 1)"
    by (simp add: link_position_def prefix_position_def chain_links_def displacement_def
        getDirection_def vadd_def real_ops_def mk_link_def)
  have p1: "link_position real_ops ?path (Suc 0) = (0, 0, 1)"
    by (simp add: link_position_def prefix_position_def chain_links_def displacement_def
        getDirection_def vadd_def real_ops_def mk_link_def)
  have nd0: "\<not> domain_violation_at real_ops ?path 0"
    by (simp add: domain_violation_at_def chain_ids_def chain_links_def
        exceeds_half_pi_def real_ops_def mk_link_def)
  have nd1: "\<not> domain_violation_at real_ops ?path (Suc 0)"
    by (simp add: domain_violation_at_def chain_ids_def chain_links_def)
  have before: "\<forall>k \<in> {..<Suc 0}. \<not> domain_violation_at real_ops ?path k \<and>
      \<not> collision_at real_ops ?path k"
    using nd0 by (simp add: lessThan_Suc collision_at_def)
  have same: "\<exists>j \<in> {..<Suc 0}. link_position real_ops ?path j = link_position real_ops ?path (Suc 0)"
    by (simp add: lessThan_Suc p0 p1)
  have near: "dless real_ops (euclidean real_ops (link_position real_ops ?path (Suc 0))
      (link_position real_ops ?path (Suc 0))) (d01 real_ops)"
    by (simp add: p1) (simp add: euclidean_def real_ops_def)
  have k: "chain_ids ?path ! Suc 0 = 2"
    by (simp add: chain_ids_def)
  from collision_check_at_index [where A = real_ops, OF folded_path reg i before nd1] same near
  have "calculatePosition real_ops False folded 2 =
      Some (Inr ([collision_report (chain_ids ?path ! Suc 0) (link_position real_ops ?path (Suc 0))],
                 (d0 real_ops, d0 real_ops, d0 real_ops)))"
    by blast
  with folded_path p0 p1 k show ?thesis
    by (simp add: collision_report_def real_ops_def)
qed

text \<open>
  C2 as stated fails in its last part: two links of length \<^verbatim>\<open>1e308\<close> and a third of length 0,
  all pointing straight up. The second and the third link both resolve to the position
  \<open>(0, 0, \<infinity>)\<close>; the distance of the two is the square root of \<open>(\<infinity> - \<infinity>)\<^sup>2\<close>, which is NaN
  and not less than 0.1. \<open>calculatePosition\<close> reports no collision and returns
  \<open>(0, 0, \<infinity>)\<close>.
\<close>

theorem collision_check_at_index_counterexample:
  "walk_path heavy 3 heavy_path 0 \<and>
   heavy 2 = Some (Ptr (mk_xlink 2 1 huge)) \<and> heavy 3 = Some (Ptr (mk_xlink 3 2 0)) \<and>
   link_position ieee_ops heavy_path 1 = (Finite 0, Finite 0, PosInf) \<and>
   link_position ieee_ops heavy_path 2 = (Finite 0, Finite 0, PosInf) \<and>
   calculatePosition ieee_ops False heavy 3 = Some (Inr ([], (Finite 0, Finite 0, PosInf)))"
proof -
  have "heavy 2 = Some (Ptr (mk_xlink 2 1 huge))" "heavy 3 = Some (Ptr (mk_xlink 3 2 0))"
    by (simp_all add: heavy_def)
  then show ?thesis
    using heavy_walk heavy_positions heavy_result by (simp add: numeral_2_eq_2)
qed

section \<open>Termination of the chain walk\<close>

text \<open>
  C3, as the code has it. The walk that collects the chain, and with it \<open>calculatePosition\<close>,
  returns exactly when following \<^verbatim>\<open>prevId\<close> from the target arrives, after finitely many
  links, at the base 0, at an id that is not registered or at an id registered with a null
  pointer. For the target id 0 the walk returns the empty chain at once. There is no bound
  on the walk and no cycle detection.
\<close>

theorem chain_walk_terminates_iff:
  "(chain_walk links chain id' \<noteq> None) = walk_ends links id' \<and>
   (calculatePosition A ndebug links id' \<noteq> None) = walk_ends links id' \<and>
   chain_walk links [] 0 = Some (Inr ([], 0))"
proof (intro conjI)
  show cw: "(chain_walk links chain id' \<noteq> None) = walk_ends links id'" for chain
    using chain_walk_ends [of links id' chain] chain_walk_returns_ends [of links chain id']
    by auto
  show "(calculatePosition A ndebug links id' \<noteq> None) = walk_ends links id'"
  proof (cases "\<not> ndebug \<and> links id' = None")
    case True
    then show ?thesis
      by (simp add: calculatePosition_def ends_here)
  next
    case False
    then have "(calculatePosition A ndebug links id' \<noteq> None) = (chain_walk links [] id' \<noteq> None)"
      by (auto simp add: calculatePosition_def split: option.splits sum.splits)
    with cw [of "[]"] show ?thesis by simp
  qed
  show "chain_walk links [] 0 = Some (Inr ([], 0))"
    by (rule chain_walk_base)
qed

theorem chain_walk_terminates_iff_witness:
  "walk_ends two_links 2 \<and> chain_walk two_links [] 2 \<noteq> None \<and>
   calculatePosition real_ops False two_links 2 \<noteq> None"
proof -
  have a: "walk_ends two_links 0"
    by (rule ends_here) simp
  have "walk_ends two_links (getPrevId (mk_link 1 0 1 0 0 PlainLink))"
    using a by (simp add: mk_link_def)
  then have b: "walk_ends two_links 1"
    by (rule ends_later [rotated]) (simp add: two_links_def)
  have "walk_ends two_links (getPrevId (mk_link 2 1 1 0 0 PlainLink))"
    using b by (simp add: mk_link_def)
  then have c: "walk_ends two_links 2"
    by (rule ends_later [rotated]) (simp add: two_links_def)
  with chain_walk_terminates_iff [of two_links "[]" 2 real_ops False] show ?thesis
    by simp
qed

text \<open>
  C3 as stated fails: in a registry whose links 2 and 3 are each other's predecessor the
  walk from 2 never leaves the loop, and \<open>calculatePosition\<close> does not return.
\<close>

theorem chain_walk_terminates_counterexample:
  "cycle 2 = Some (Ptr (mk_link 2 3 1 0 0 PlainLink)) \<and>
   cycle 3 = Some (Ptr (mk_link 3 2 1 0 0 PlainLink)) \<and>
   chain_walk cycle [] 2 = None \<and>
   calculatePosition real_ops False cycle 2 = None"
proof -
  have "chain_walk cycle [] 2 = None"
  proof (cases "chain_walk cycle [] 2")
    case (Some res)
    then have "walk_ends cycle 2" by (rule chain_walk_returns_ends)
    with cycle_never_ends [of 2] show ?thesis by simp
  qed simp
  then show ?thesis
    by (simp add: calculatePosition_def cycle_def)
qed

section \<open>The bound on the link with id 1\<close>




section \<open>Broken chains and the base\<close>

text \<open>
  C5. When the target id is registered and the walk along \<^verbatim>\<open>prevId\<close> arrives at an id that
  is neither 0 nor registered, \<open>calculatePosition\<close> returns: it reports the incomplete chain
  to the target and its value is \<open>(0, 0, 0)\<close>.
\<close>

theorem calculatePosition_incomplete_chain:
  "walk_path links id' path stop \<Longrightarrow> stop \<noteq> 0 \<Longrightarrow> links id' \<noteq> None \<Longrightarrow>
   calculatePosition A ndebug links id' = Some (Inr ([IncompleteChain id'], (d0 A, d0 A, d0 A)))"
  by (simp add: calculatePosition_def chain_walk_path)

theorem calculatePosition_incomplete_chain_witness:
  "walk_path broken_chain 2 [(2, mk_link 2 7 1 0 0 PlainLink)] 7 \<and> broken_chain 7 = None \<and>
   calculatePosition real_ops False broken_chain 2 = Some (Inr ([IncompleteChain 2], (0, 0, 0)))"
proof -
  have s: "broken_chain 7 = None"
    by (simp add: broken_chain_def)
  have "walk_path broken_chain (getPrevId (mk_link 2 7 1 0 0 PlainLink)) [] 7"
    by (simp add: mk_link_def s walk_stop)
  then have w: "walk_path broken_chain 2 [(2, mk_link 2 7 1 0 0 PlainLink)] 7"
    by (intro walk_step) (simp_all add: broken_chain_def)
  have r: "broken_chain 2 \<noteq> None"
    by (simp add: broken_chain_def)
  from calculatePosition_incomplete_chain [where links = broken_chain and id' = 2
      and path = "[(2, mk_link 2 7 1 0 0 PlainLink)]" and stop = 7 and A = real_ops
      and ndebug = False] w r s
  show ?thesis by (simp add: real_ops_def)
qed

text \<open>
  C6, as the code has it. \<open>calculatePosition\<close> with target id 0 returns the position
  \<open>(0, 0, 0)\<close>, and reports nothing, when the key 0 is registered or the assertion is
  compiled out. (With the assertion compiled in and the key 0 not registered, the assertion
  fails: see the counterexample.)
\<close>

theorem calculatePosition_base:
  "ndebug \<or> links 0 \<noteq> None \<Longrightarrow>
   calculatePosition A ndebug links 0 = Some (Inr ([], (d0 A, d0 A, d0 A)))"
  by (auto simp add: calculatePosition_def chain_walk_base position_loop.simps)

theorem calculatePosition_base_witness:
  "with_zero 0 \<noteq> None \<and>
   calculatePosition real_ops False with_zero 0 = Some (Inr ([], (0, 0, 0))) \<and>
   calculatePosition real_ops True two_links 0 = Some (Inr ([], (0, 0, 0)))"
proof -
  have h: "with_zero 0 \<noteq> None"
    by (simp add: with_zero_def)
  from calculatePosition_base [where ndebug = False and links = with_zero and A = real_ops]
    calculatePosition_base [where ndebug = True and links = two_links and A = real_ops] h
  show ?thesis by (simp add: real_ops_def)
qed

text \<open>
  C6 as stated fails: with the assertion compiled in, target id 0 on a registry that holds
  the links 1 and 2 only ends in the failed assertion and returns no position.
\<close>

theorem calculatePosition_base_counterexample:
  "calculatePosition real_ops False two_links 0 = Some (Inl AssertionFailed) \<and>
   calculatePosition real_ops False two_links 0 \<noteq> Some (Inr ([], (0, 0, 0)))"
  by (simp add: calculatePosition_def two_links_def)

section \<open>Duplicate ids and absent ids\<close>

text \<open>
  C7. When the id of the link handed to \<open>addLink\<close> is already a key of the registry, the
  call reports the duplicate id and returns the registry as it was: every key is mapped to
  what it was mapped to before, so the link stored first, with its orientation, is untouched.
\<close>

theorem addLink_duplicate:
  "links (getId link) \<noteq> None \<Longrightarrow> addLink links link = ([AlreadyExists (getId link)], links)"
  by (simp add: addLink_def)

theorem addLink_duplicate_witness:
  "two_links (getId (mk_link 1 0 5 1 1 Gripper)) \<noteq> None \<and>
   addLink two_links (mk_link 1 0 5 1 1 Gripper) = ([AlreadyExists 1], two_links) \<and>
   two_links 1 = Some (Ptr (mk_link 1 0 1 0 0 PlainLink))"
proof -
  have h: "two_links (getId (mk_link 1 0 5 1 1 Gripper)) \<noteq> None"
    by (simp add: two_links_def mk_link_def)
  have "getId (mk_link 1 0 5 1 1 Gripper) = 1"
    by (simp add: mk_link_def)
  with h addLink_duplicate [where links = two_links and link = "mk_link 1 0 5 1 1 Gripper"]
  show ?thesis
    by (simp add: two_links_def)
qed

text \<open>
  C8. When the id is not a key of the registry, \<open>openGripper\<close>, \<open>closeGripper\<close> and
  \<open>takePhoto\<close> return a registry in which the id is mapped to the null pointer, and report
  that the link is not a gripper (not a camera). The id then counts as present: \<open>addLink\<close>
  of a link with that id is rejected as a duplicate.
\<close>

theorem capability_call_inserts_null:
  "links id' = None \<Longrightarrow>
     openGripper open_m links id' angle = ([NotAGripper id'], links(id' \<mapsto> nullptr)) \<and>
     closeGripper close_m links id' = ([NotAGripper id'], links(id' \<mapsto> nullptr)) \<and>
     takePhoto photo_m links id' = ([NotACamera id'], links(id' \<mapsto> nullptr)) \<and>
     (links(id' \<mapsto> nullptr)) id' \<noteq> None \<and>
     (getId link = id' \<longrightarrow>
        addLink (links(id' \<mapsto> nullptr)) link = ([AlreadyExists id'], links(id' \<mapsto> nullptr)))"
  by (simp add: openGripper_def closeGripper_def takePhoto_def subscript_def dynamic_cast_def
      addLink_def)

theorem capability_call_inserts_null_witness:
  "two_links 3 = None \<and>
   openGripper (\<lambda>a l. l) two_links 3 (1 / 2) = ([NotAGripper 3], two_links(3 \<mapsto> nullptr)) \<and>
   closeGripper (\<lambda>l. l) two_links 3 = ([NotAGripper 3], two_links(3 \<mapsto> nullptr)) \<and>
   takePhoto (\<lambda>l. l) two_links 3 = ([NotACamera 3], two_links(3 \<mapsto> nullptr)) \<and>
   addLink (two_links(3 \<mapsto> nullptr)) (mk_link 3 2 1 0 0 Gripper)
     = ([AlreadyExists 3], two_links(3 \<mapsto> nullptr))"
proof -
  have h: "two_links 3 = None"
    by (simp add: two_links_def)
  have g: "getId (mk_link 3 2 1 0 0 Gripper) = 3"
    by (simp add: mk_link_def)
  from capability_call_inserts_null [where links = two_links and id' = 3
      and open_m = "\<lambda>a l. l" and angle = "1 / 2" and close_m = "\<lambda>l. l" and photo_m = "\<lambda>l. l"
      and link = "mk_link 3 2 1 0 0 Gripper"] h g
  show ?thesis by blast
qed

section \<open>Roll\<close>

text \<open>
  C9. Two registries that are identical except for the rolls of their links (they become
  equal when every roll is overwritten with one value \<open>c\<close>) give the same result of
  \<open>calculatePosition\<close> for every target id: the same position, the same reports, the same
  failure or the same non-termination.
\<close>

theorem roll_has_no_effect:
  "set_rolls (\<lambda>k. c) links' = set_rolls (\<lambda>k. c) links \<Longrightarrow>
   calculatePosition A ndebug links' id' = calculatePosition A ndebug links id'"
  using calculatePosition_set_rolls [of A ndebug "\<lambda>k. c" links' id']
    calculatePosition_set_rolls [of A ndebug "\<lambda>k. c" links id']
  by simp

theorem roll_has_no_effect_witness:
  "set_rolls (\<lambda>k. 0) two_links = set_rolls (\<lambda>k. 0) rolled \<and> two_links \<noteq> rolled \<and>
   calculatePosition real_ops False two_links 2 = Some (Inr ([], (0, 0, 2)))"
proof -
  have e: "set_rolls (\<lambda>k. 0) two_links = set_rolls (\<lambda>k. 0) rolled"
    by (rule ext) (simp add: set_rolls_def two_links_def rolled_def mk_link_def)
  have "two_links 1 \<noteq> rolled 1"
    by (simp add: two_links_def rolled_def mk_link_def)
  then have d: "two_links \<noteq> rolled"
    by auto
  from roll_has_no_effect [where A = real_ops and ndebug = False and id' = 2, OF e]
    rolled_position e d
  show ?thesis by simp
qed

section \<open>Missing capabilities\<close>

text \<open>
  C10. When the id is a key of the registry and the link behind it is not a gripper,
  \<open>openGripper\<close> and \<open>closeGripper\<close> report that it is not a gripper and return the registry
  unchanged; when it is not a camera, \<open>takePhoto\<close> reports that it is not a camera and
  returns the registry unchanged. The registry holds the state of every link, so no link
  changes either.
\<close>

theorem wrong_capability_no_action:
  "links id' = Some (Ptr link) \<Longrightarrow>
     (dyn_type link \<noteq> Gripper \<longrightarrow>
        openGripper open_m links id' angle = ([NotAGripper id'], links) \<and>
        closeGripper close_m links id' = ([NotAGripper id'], links)) \<and>
     (dyn_type link \<noteq> Camera \<longrightarrow>
        takePhoto photo_m links id' = ([NotACamera id'], links))"
  by (simp add: openGripper_def closeGripper_def takePhoto_def subscript_def dynamic_cast_def)

theorem wrong_capability_no_action_witness:
  "two_links 1 = Some (Ptr (mk_link 1 0 1 0 0 PlainLink)) \<and>
   openGripper (\<lambda>a l. l\<lparr>dir_roll := a\<rparr>) two_links 1 (1 / 2) = ([NotAGripper 1], two_links) \<and>
   closeGripper (\<lambda>l. l\<lparr>dir_roll := 1\<rparr>) two_links 1 = ([NotAGripper 1], two_links) \<and>
   takePhoto (\<lambda>l. l\<lparr>dir_roll := 1\<rparr>) two_links 1 = ([NotACamera 1], two_links)"
proof -
  have h: "two_links 1 = Some (Ptr (mk_link 1 0 1 0 0 PlainLink))"
    by (simp add: two_links_def)
  have g: "dyn_type (mk_link 1 0 1 0 0 PlainLink) \<noteq> Gripper"
    "dyn_type (mk_link 1 0 1 0 0 PlainLink) \<noteq> Camera"
    by (simp_all add: mk_link_def)
  from wrong_capability_no_action [where links = two_links and id' = 1
      and link = "mk_link 1 0 1 0 0 PlainLink"
      and open_m = "\<lambda>a l. l\<lparr>dir_roll := a\<rparr>" and angle = "1 / 2"
      and close_m = "\<lambda>l. l\<lparr>dir_roll := 1\<rparr>" and photo_m = "\<lambda>l. l\<lparr>dir_roll := 1\<rparr>"] h g
  show ?thesis by blast
qed

end
